theory Spec2Isabelle
  imports Complex_Main "HOL-Library.Word" "HOL-Library.Product_Lexorder"
begin

unbundle bit_operations_syntax

section \<open>Byte buffers and Python's read operations\<close>

text \<open>
  The decoder of \<^verbatim>\<open>midi_to_json_custom.py\<close> works on a \<^verbatim>\<open>bytes\<close> object. A single
  index \<^verbatim>\<open>data[i]\<close> yields an integer in 0..255 and raises \<^verbatim>\<open>IndexError\<close> out of range;
  a slice \<^verbatim>\<open>data[a:b]\<close> never raises and is cut at the end of the buffer;
  \<^verbatim>\<open>struct.unpack\<close> raises \<^verbatim>\<open>struct.error\<close> when the slice has not the exact size.
  Python integers are unbounded, so decoded values are natural numbers. All offsets of
  the program are non-negative, so negative indexing does not occur.
\<close>

type_synonym byte = "8 word"

datatype error = IndexError | StructError | ZeroDivisionError | ValueError | OverflowError

definition byte_at :: "byte list \<Rightarrow> nat \<Rightarrow> error + nat" where
  "byte_at data i = (if i < length data then Inr (unat (data ! i)) else Inl IndexError)"

definition slice :: "'a list \<Rightarrow> nat \<Rightarrow> nat \<Rightarrow> 'a list" where
  "slice data a b = take (b - a) (drop a data)"






section \<open>Variable-length quantities\<close>

text \<open>
  \<^verbatim>\<open>read_variable_length(data, offset)\<close>: the \<^verbatim>\<open>while True\<close> loop, with the accumulator
  \<^verbatim>\<open>value\<close> as an argument. The loop has no bound on the number of bytes; it ends at the
  first byte whose top bit is clear, or with \<^verbatim>\<open>IndexError\<close> at the end of the buffer.
\<close>

function read_variable_length_loop :: "byte list \<Rightarrow> nat \<Rightarrow> nat \<Rightarrow> error + (nat \<times> nat)" where
  "read_variable_length_loop data val off =
     (case byte_at data off of
        Inl e \<Rightarrow> Inl e
      | Inr byte \<Rightarrow>
          (let off' = off + 1;
               val' = push_bit 7 val OR (byte AND 0x7F)
           in if byte AND 0x80 = 0 then Inr (val', off')
              else read_variable_length_loop data val' off'))"
  by pat_completeness auto
termination
  by (relation "measure (\<lambda>(data, val, off). length data - off)")
     (auto simp: byte_at_def split: if_splits)

definition read_variable_length :: "byte list \<Rightarrow> nat \<Rightarrow> error + (nat \<times> nat)" where
  "read_variable_length data off = read_variable_length_loop data 0 off"

section \<open>Decoded events\<close>

text \<open>
  An event is a Python dictionary with the keys \<^verbatim>\<open>absoluteTicks\<close> and \<^verbatim>\<open>channel\<close> and
  the keys its kind adds. \<^verbatim>\<open>Untyped\<close> is the dictionary with no \<^verbatim>\<open>type\<close> key, which the
  decoder builds for a status byte 0xF1..0xFE other than 0xF7. The text of a track name is
  kept as the payload bytes it is decoded from.
\<close>

datatype sub_type = SetTempo nat | TrackName "byte list" | EndOfTrack | Unknown

datatype event_kind =
    Meta nat sub_type
  | Sysex
  | NoteOff nat nat
  | NoteOn nat nat
  | PolyphonicKeyPressure nat nat
  | ControlChange nat nat
  | ProgramChange nat
  | ChannelPressure nat
  | PitchBend nat
  | Untyped

record event =
  absoluteTicks :: nat
  channel :: nat
  kind :: event_kind


section \<open>Decoding one event\<close>

definition read2 :: "byte list \<Rightarrow> nat \<Rightarrow> error + (nat \<times> nat)" where
  "read2 data off =
     (case byte_at data off of
        Inl e \<Rightarrow> Inl e
      | Inr a \<Rightarrow> (case byte_at data (off + 1) of Inl e \<Rightarrow> Inl e | Inr b \<Rightarrow> Inr (a, b)))"

text \<open>The branch \<^verbatim>\<open>status == 0xFF\<close>; \<^verbatim>\<open>off\<close> is the offset after the status byte.\<close>

definition decode_meta :: "byte list \<Rightarrow> nat \<Rightarrow> error + (event_kind \<times> nat)" where
  "decode_meta data off =
     (case byte_at data off of
        Inl e \<Rightarrow> Inl e
      | Inr meta_type \<Rightarrow>
          (case read_variable_length data (off + 1) of
             Inl e \<Rightarrow> Inl e
           | Inr (len, off1) \<Rightarrow>
               (let meta_data = slice data off1 (off1 + len);
                    off2 = off1 + len
                in if meta_type = 0x51 \<and> len = 3 then
                     (if length meta_data < 3 then Inl IndexError
                      else Inr (Meta meta_type (SetTempo
                             (push_bit 16 (unat (meta_data ! 0)) OR
                              push_bit 8 (unat (meta_data ! 1)) OR
                              unat (meta_data ! 2))), off2))
                   else if meta_type = 0x03 then Inr (Meta meta_type (TrackName meta_data), off2)
                   else if meta_type = 0x2F then Inr (Meta meta_type EndOfTrack, off2)
                   else Inr (Meta meta_type Unknown, off2))))"

text \<open>The branch \<^verbatim>\<open>status == 0xF0 or status == 0xF7\<close>.\<close>

definition decode_sysex :: "byte list \<Rightarrow> nat \<Rightarrow> error + (event_kind \<times> nat)" where
  "decode_sysex data off =
     (case read_variable_length data off of
        Inl e \<Rightarrow> Inl e
      | Inr (len, off1) \<Rightarrow> Inr (Sysex, off1 + len))"

text \<open>The last branch, on \<^verbatim>\<open>event_type = status >> 4\<close>.\<close>

definition decode_voice :: "byte list \<Rightarrow> nat \<Rightarrow> nat \<Rightarrow> error + (event_kind \<times> nat)" where
  "decode_voice data event_type off =
     (if event_type = 0x8 then
        (case read2 data off of Inl e \<Rightarrow> Inl e
         | Inr (note, velocity) \<Rightarrow> Inr (NoteOff note velocity, off + 2))
      else if event_type = 0x9 then
        (case read2 data off of Inl e \<Rightarrow> Inl e
         | Inr (note, velocity) \<Rightarrow>
             Inr (if velocity = 0 then NoteOff note 0 else NoteOn note velocity, off + 2))
      else if event_type = 0xA then
        (case read2 data off of Inl e \<Rightarrow> Inl e
         | Inr (note, pressure) \<Rightarrow> Inr (PolyphonicKeyPressure note pressure, off + 2))
      else if event_type = 0xB then
        (case read2 data off of Inl e \<Rightarrow> Inl e
         | Inr (controller, val) \<Rightarrow> Inr (ControlChange controller val, off + 2))
      else if event_type = 0xC then
        (case byte_at data off of Inl e \<Rightarrow> Inl e
         | Inr program \<Rightarrow> Inr (ProgramChange program, off + 1))
      else if event_type = 0xD then
        (case byte_at data off of Inl e \<Rightarrow> Inl e
         | Inr pressure \<Rightarrow> Inr (ChannelPressure pressure, off + 1))
      else if event_type = 0xE then
        (case read2 data off of Inl e \<Rightarrow> Inl e
         | Inr (lsb, msb) \<Rightarrow> Inr (PitchBend (push_bit 7 msb OR lsb), off + 2))
      else Inr (Untyped, off))"

definition decode_body :: "byte list \<Rightarrow> nat \<Rightarrow> nat \<Rightarrow> error + (event_kind \<times> nat)" where
  "decode_body data status off =
     (if status = 0xFF then decode_meta data off
      else if status = 0xF0 \<or> status = 0xF7 then decode_sysex data off
      else decode_voice data (drop_bit 4 status) off)"

text \<open>
  The status byte and running status: \<^verbatim>\<open>resolve_status status off last_status\<close> is
  \<^verbatim>\<open>None\<close> where the source prints its error and breaks, and otherwise the effective
  status, the offset and the stored last status.
\<close>

definition resolve_status :: "nat \<Rightarrow> nat \<Rightarrow> nat \<Rightarrow> (nat \<times> nat \<times> nat) option" where
  "resolve_status status off prev =
     (if status \<ge> 0x80 then Some (status, off + 1, if status < 0xF0 then status else prev)
      else if prev = 0 then None
      else Some (prev, off, prev))"

record track_state =
  offset :: nat
  absolute_ticks :: nat
  last_status :: nat
  track_events :: "event list"
  all_events :: "event list"

datatype step = Continue track_state | Break track_state

definition is_set_tempo :: "event_kind \<Rightarrow> bool" where
  "is_set_tempo k = (case k of Meta m (SetTempo us) \<Rightarrow> True | _ \<Rightarrow> False)"

text \<open>One iteration of \<^verbatim>\<open>while offset < track_end\<close>.\<close>

definition decode_event :: "byte list \<Rightarrow> track_state \<Rightarrow> error + step" where
  "decode_event data st =
     (case read_variable_length data (offset st) of
        Inl e \<Rightarrow> Inl e
      | Inr (delta_time, off) \<Rightarrow>
          (let ticks = absolute_ticks st + delta_time in
           case byte_at data off of
             Inl e \<Rightarrow> Inl e
           | Inr status0 \<Rightarrow>
               (case resolve_status status0 off (last_status st) of
                  None \<Rightarrow> Inr (Break (st\<lparr>offset := off, absolute_ticks := ticks\<rparr>))
                | Some (status, off1, new_last) \<Rightarrow>
                    (case decode_body data status off1 of
                       Inl e \<Rightarrow> Inl e
                     | Inr (k, off2) \<Rightarrow>
                         (let ev = \<lparr>absoluteTicks = ticks, channel = status AND 0x0F, kind = k\<rparr>
                          in Inr (Continue (st\<lparr>offset := off2, absolute_ticks := ticks,
                                last_status := new_last,
                                track_events := track_events st @ [ev],
                                all_events := (if is_set_tempo k then all_events st @ [ev]
                                               else all_events st)\<rparr>)))))))"

section \<open>Decoding a track and a file\<close>

text \<open>
  Every iteration consumes at least the byte of the delta time, so the loop
  \<^verbatim>\<open>while offset < track_end\<close> terminates.
\<close>

lemma read_variable_length_loop_offset:
  "read_variable_length_loop data val off = Inr (v, off') \<Longrightarrow> off < off'"
proof (induction data val off rule: read_variable_length_loop.induct)
  case (1 data val off)
  from "1.prems" obtain b where b: "byte_at data off = Inr b"
    by (subst (asm) read_variable_length_loop.simps) (auto split: sum.splits)
  show ?case
  proof (cases "b AND 0x80 = 0")
    case True
    with "1.prems" b show ?thesis
      by (subst (asm) read_variable_length_loop.simps) (simp add: Let_def)
  next
    case False
    with "1.prems" b
    have "read_variable_length_loop data (push_bit 7 val OR (b AND 0x7F)) (off + 1) = Inr (v, off')"
      by (subst (asm) read_variable_length_loop.simps) (simp add: Let_def)
    with "1.IH" [OF b refl refl False] show ?thesis by simp
  qed
qed

lemma read_variable_length_offset:
  "read_variable_length data off = Inr (v, off') \<Longrightarrow> off < off'"
  unfolding read_variable_length_def by (rule read_variable_length_loop_offset)

lemma decode_body_offset:
  "decode_body data status off = Inr (k, off') \<Longrightarrow> off \<le> off'"
  by (auto simp: decode_body_def decode_meta_def decode_sysex_def decode_voice_def Let_def
      split: if_splits sum.splits prod.splits dest!: read_variable_length_offset)

lemma resolve_status_offset:
  "resolve_status status off prev = Some (s, off1, new_last) \<Longrightarrow> off \<le> off1"
  by (auto simp: resolve_status_def split: if_splits)

lemma decode_event_offset:
  assumes "decode_event data st = Inr (Continue st')"
  shows "offset st < offset st'"
proof -
  from assms obtain delta_time off status0 s off1 new_last k off2
    where d: "read_variable_length data (offset st) = Inr (delta_time, off)"
      and r: "resolve_status status0 off (last_status st) = Some (s, off1, new_last)"
      and b: "decode_body data s off1 = Inr (k, off2)"
      and o: "offset st' = off2"
    by (auto simp: decode_event_def Let_def split: sum.splits option.splits prod.splits)
  from read_variable_length_offset [OF d] resolve_status_offset [OF r] decode_body_offset [OF b] o
  show ?thesis by simp
qed

datatype loop_exit = Finished track_state | Broke track_state

function track_loop :: "byte list \<Rightarrow> nat \<Rightarrow> track_state \<Rightarrow> error + loop_exit" where
  "track_loop data track_end st =
     (if offset st < track_end then
        (case decode_event data st of
           Inl e \<Rightarrow> Inl e
         | Inr (Break st') \<Rightarrow> Inr (Broke st')
         | Inr (Continue st') \<Rightarrow> track_loop data track_end st')
      else Inr (Finished st))"
  by pat_completeness auto
termination
  by (relation "measure (\<lambda>(data, track_end, st). track_end - offset st)")
     (auto dest: decode_event_offset)



section \<open>Tempo map and time mapping\<close>

text \<open>
  Times are IEEE doubles in the source. The model computes with real numbers, so it
  describes the formulas and the branches taken, not the rounding. What it keeps of the
  floats is the exception of a division: \<^verbatim>\<open>n / x\<close> with a Python integer \<open>n\<close> and a float
  \<open>x\<close> first converts \<open>n\<close> to a float, which raises \<^verbatim>\<open>OverflowError\<close> when \<open>n\<close> rounds
  beyond the largest double, that is from \<open>2 ^ 1024 - 2 ^ 970\<close> on, and then raises
  \<^verbatim>\<open>ZeroDivisionError\<close> when \<open>x\<close> is zero.
\<close>

definition int_div_float :: "int \<Rightarrow> real \<Rightarrow> error + real" where
  "int_div_float n x =
     (if \<bar>n\<bar> \<ge> 2 ^ 1024 - 2 ^ 970 then Inl OverflowError
      else if x = 0 then Inl ZeroDivisionError
      else Inr (real_of_int n / x))"

definition tempo_of :: "event \<Rightarrow> (nat \<times> nat) option" where
  "tempo_of e = (case kind e of Meta m (SetTempo us) \<Rightarrow> Some (absoluteTicks e, us) | _ \<Rightarrow> None)"

definition build_tempo_map :: "event list \<Rightarrow> (nat \<times> nat) list" where
  "build_tempo_map all =
     (let tempo_events = sort_key fst (List.map_filter tempo_of all)
      in if tempo_events = [] \<or> 0 < fst (hd tempo_events)
         then (0, 500000) # tempo_events else tempo_events)"


text \<open>The \<^verbatim>\<open>for te in tempo_events\<close> loop of \<^verbatim>\<open>ticks_to_seconds\<close>, with its \<^verbatim>\<open>break\<close>.\<close>

fun tempo_walk ::
  "nat \<Rightarrow> nat \<Rightarrow> (nat \<times> nat) list \<Rightarrow> real \<times> nat \<times> nat \<Rightarrow> error + (real \<times> nat \<times> nat)" where
  "tempo_walk tpq ticks [] acc = Inr acc"
| "tempo_walk tpq ticks ((te_ticks, te_tempo) # rest) (current_time, current_tick, current_tempo) =
     (if ticks < te_ticks then Inr (current_time, current_tick, current_tempo)
      else
        (case int_div_float ((int te_ticks - int current_tick) * int current_tempo)
                (real tpq * 1000000) of
           Inl e \<Rightarrow> Inl e
         | Inr x \<Rightarrow> tempo_walk tpq ticks rest (current_time + x, te_ticks, te_tempo)))"

text \<open>
  \<^verbatim>\<open>ticks_to_seconds\<close>: the loop and the last statement, which divides once more by
  \<^verbatim>\<open>ticks_per_quarter * 1000000.0\<close>.
\<close>

definition ticks_to_seconds :: "nat \<Rightarrow> (nat \<times> nat) list \<Rightarrow> nat \<Rightarrow> error + real" where
  "ticks_to_seconds ticks_per_quarter tempo_events ticks =
     (case tempo_walk ticks_per_quarter ticks tempo_events (0, 0, 500000) of
        Inl e \<Rightarrow> Inl e
      | Inr (current_time, current_tick, current_tempo) \<Rightarrow>
          (case int_div_float ((int ticks - int current_tick) * int current_tempo)
                  (real ticks_per_quarter * 1000000) of
             Inl e \<Rightarrow> Inl e
           | Inr x \<Rightarrow> Inr (current_time + x)))"






section \<open>The automation-curve source: beats to seconds\<close>

text \<open>
  \<^verbatim>\<open>beats_to_seconds\<close> of \<^verbatim>\<open>dawproject_to_json.py\<close>. Its first half builds a list
  \<^verbatim>\<open>segments\<close> and walks it without any effect on the result (the loop body is
  \<^verbatim>\<open>pass\<close>, and \<^verbatim>\<open>total_time\<close> is set to 0.0 again afterwards); the model starts at
  \<^verbatim>\<open>sorted_points\<close>, line 164. Python raises \<^verbatim>\<open>ZeroDivisionError\<close> on a float division by
  zero and \<^verbatim>\<open>ValueError\<close> on the logarithm of a number that is not positive.
\<close>

text \<open>\<^verbatim>\<open>dur * 60.0 / v\<close>\<close>

definition constant_time :: "real \<Rightarrow> real \<Rightarrow> error + real" where
  "constant_time dur v = (if v = 0 then Inl ZeroDivisionError else Inr (dur * 60 / v))"

text \<open>\<^verbatim>\<open>(60.0 / slope) * math.log(v_end / v1)\<close>\<close>

definition ramp_time :: "real \<Rightarrow> real \<Rightarrow> real \<Rightarrow> error + real" where
  "ramp_time slope v_end v1 =
     (if slope = 0 then Inl ZeroDivisionError
      else if v1 = 0 then Inl ZeroDivisionError
      else if v_end / v1 \<le> 0 then Inl ValueError
      else Inr ((60 / slope) * ln (v_end / v1)))"

datatype walk = Returned real | Fell real

text \<open>
  \<^verbatim>\<open>for i in range(len(sorted_points) - 1)\<close> over the consecutive pairs of points:
  \<^verbatim>\<open>Returned\<close> is the \<^verbatim>\<open>return total_time\<close> of the partial segment, \<^verbatim>\<open>Fell\<close> the
  \<^verbatim>\<open>break\<close> or the end of the loop, with the value of \<^verbatim>\<open>total_time\<close>.
\<close>

fun segments_loop :: "real \<Rightarrow> (real \<times> real) list \<Rightarrow> real \<Rightarrow> error + walk" where
  "segments_loop beats ((t1, v1) # (t2, v2) # rest) total_time =
     (if beats < t1 then Inr (Fell total_time)
      else if beats \<ge> t2 then
        (let dur = t2 - t1
         in if dur > 0 then
              (case (if \<bar>v2 - v1\<bar> < 0.0001 then constant_time dur v1
                     else ramp_time ((v2 - v1) / dur) v2 v1) of
                 Inl e \<Rightarrow> Inl e
               | Inr x \<Rightarrow> segments_loop beats ((t2, v2) # rest) (total_time + x))
            else segments_loop beats ((t2, v2) # rest) total_time)
      else
        (let dur = beats - t1
         in if dur > 0 then
              (let slope = (v2 - v1) / (t2 - t1);
                   v_end = v1 + slope * dur
               in case (if \<bar>slope\<bar> < 0.0001 then constant_time dur v1
                        else ramp_time slope v_end v1) of
                    Inl e \<Rightarrow> Inl e
                  | Inr x \<Rightarrow> Inr (Returned (total_time + x)))
            else Inr (Returned total_time)))"
| "segments_loop beats ps total_time = Inr (Fell total_time)"

definition beats_to_seconds :: "real \<Rightarrow> real \<Rightarrow> (real \<times> real) list \<Rightarrow> error + real" where
  "beats_to_seconds beats initial_bpm tempo_points =
     (let sorted_points =
            (if tempo_points = [] \<or> 0 < fst (hd tempo_points) then [(0, initial_bpm)] else [])
            @ tempo_points
      in case segments_loop beats sorted_points 0 of
           Inl e \<Rightarrow> Inl e
         | Inr (Returned t) \<Rightarrow> Inr t
         | Inr (Fell total_time) \<Rightarrow>
             (case last sorted_points of
                (last_t, last_v) \<Rightarrow>
                  if beats > last_t then
                    (case constant_time (beats - last_t) last_v of
                       Inl e \<Rightarrow> Inl e
                     | Inr x \<Rightarrow> Inr (total_time + x))
                  else Inr total_time))"

section \<open>The automation-curve source: assembling a track\<close>

text \<open>
  The events of \<^verbatim>\<open>dawproject_to_json.py\<close> are dictionaries with the keys
  \<^verbatim>\<open>absoluteTicks\<close>, \<^verbatim>\<open>channel\<close>, \<^verbatim>\<open>type\<close>, \<^verbatim>\<open>time\<close> and those of their type: a note
  carries its key, its integer velocity and the float it was computed from.
\<close>

datatype daw_type =
    DawTrackName string
  | DawNoteOn int int real
  | DawNoteOff int int real
  | DawEndOfTrack

record daw_event =
  daw_absoluteTicks :: int
  daw_channel :: nat
  daw_type :: daw_type
  daw_time :: real

text \<open>Python's \<^verbatim>\<open>int(x)\<close> on a float rounds towards zero.\<close>

definition py_int :: "real \<Rightarrow> int" where
  "py_int x = (if x \<ge> 0 then \<lfloor>x\<rfloor> else \<lceil>x\<rceil>)"

text \<open>The two events appended for one \<^verbatim>\<open>Note\<close> element, lines 288 to 316.\<close>

definition note_events ::
  "real \<Rightarrow> (real \<times> real) list \<Rightarrow> int \<Rightarrow> real \<Rightarrow> real \<Rightarrow>
   real \<Rightarrow> real \<Rightarrow> int \<Rightarrow> real \<Rightarrow> real \<Rightarrow> error + daw_event list" where
  "note_events initial_bpm tempo_points transpose_by clip_start clip_play_start
               note_start note_dur key vel rel =
     (let abs_beat_start = clip_start + (note_start - clip_play_start);
          abs_beat_end = abs_beat_start + note_dur
      in case beats_to_seconds abs_beat_start initial_bpm tempo_points of
           Inl e \<Rightarrow> Inl e
         | Inr time_start \<Rightarrow>
             (case beats_to_seconds abs_beat_end initial_bpm tempo_points of
                Inl e \<Rightarrow> Inl e
              | Inr time_end \<Rightarrow>
                  Inr [\<lparr>daw_absoluteTicks = py_int (abs_beat_start * 960), daw_channel = 13,
                        daw_type = DawNoteOn (key + transpose_by) (py_int (vel * 127)) vel,
                        daw_time = time_start\<rparr>,
                       \<lparr>daw_absoluteTicks = py_int (abs_beat_end * 960), daw_channel = 13,
                        daw_type = DawNoteOff (key + transpose_by) (py_int (rel * 127)) rel,
                        daw_time = time_end\<rparr>]))"

definition is_daw_note_off :: "daw_event \<Rightarrow> bool" where
  "is_daw_note_off e = (case daw_type e of DawNoteOff k v r \<Rightarrow> True | _ \<Rightarrow> False)"

definition is_daw_note_on :: "daw_event \<Rightarrow> bool" where
  "is_daw_note_on e = (case daw_type e of DawNoteOn k v r \<Rightarrow> True | _ \<Rightarrow> False)"

text \<open>
  The key of \<^verbatim>\<open>evts.sort\<close>, line 333: a pair compared lexicographically, with
  \<^verbatim>\<open>False < True\<close>. Python's sort is stable, as \<^const>\<open>sort_key\<close> is.
\<close>

definition sort_key_of :: "daw_event \<Rightarrow> int \<times> bool" where
  "sort_key_of x = (daw_absoluteTicks x, is_daw_note_off x)"

text \<open>\<^verbatim>\<open>max(evts, key=lambda x: x['time'])\<close> is the first event of greatest time.\<close>

fun max_by_time :: "daw_event \<Rightarrow> daw_event list \<Rightarrow> daw_event" where
  "max_by_time best [] = best"
| "max_by_time best (e # es) = max_by_time (if daw_time e > daw_time best then e else best) es"

text \<open>Lines 332 to 356: sort the events of a track and append the end-of-track marker.\<close>

definition finish_track :: "daw_event list \<Rightarrow> daw_event list" where
  "finish_track track_evts =
     (let evts = sort_key sort_key_of track_evts;
          (max_time, max_ticks) =
            (case evts of
               [] \<Rightarrow> (0, 0)
             | e # es \<Rightarrow> (let last_evt = max_by_time e es
                          in (daw_time last_evt, daw_absoluteTicks last_evt)))
      in evts @ [\<lparr>daw_absoluteTicks = max_ticks, daw_channel = 15,
                  daw_type = DawEndOfTrack, daw_time = max_time\<rparr>])"

section \<open>The canonical variable-length encoding\<close>

text \<open>
  The program has a decoder only. The canonical encoding of the format, the one the
  round trip of claim C5 speaks of, is written here from its definition: seven bits to a
  byte, most significant group first, the top bit set on every byte but the last, and no
  leading group of zeros. \<^verbatim>\<open>vlq_prefix\<close> gives the bytes that carry the top bit.
\<close>

function vlq_prefix :: "nat \<Rightarrow> byte list" where
  "vlq_prefix v = (if v = 0 then [] else vlq_prefix (v div 128) @ [of_nat (v mod 128) OR 0x80])"
  by pat_completeness auto
termination
  by (relation "measure id") auto

definition vlq_encode :: "nat \<Rightarrow> byte list" where
  "vlq_encode v = vlq_prefix (v div 128) @ [of_nat (v mod 128)]"

text \<open>The assignment of line 11, \<^verbatim>\<open>value = (value << 7) | (byte & 0x7F)\<close>, on a byte of the buffer.\<close>

definition accumulate :: "nat \<Rightarrow> byte \<Rightarrow> nat" where
  "accumulate val b = push_bit 7 val OR (unat b AND 0x7F)"

section \<open>Event times of a timeline\<close>


section \<open>Tracks as lists of messages\<close>

text \<open>
  The running status property compares two byte streams of the same track. The program
  has no encoder, so the streams are written here from the format: a track is the list of
  its messages, each with its delta time and a flag that says whether its status byte is
  left out; \<^verbatim>\<open>encode_track\<close> is the byte stream, and \<^verbatim>\<open>explicit\<close> the same track
  with every status byte written. A channel message has a status byte from 0x80 to 0xEF
  and one or two data bytes below 0x80; a status byte may be left out where it equals the
  status the decoder has stored, which is how the decoder itself resolves a data byte.
\<close>

datatype message = Voice byte "byte list" | MetaMsg byte "byte list" | SysexMsg byte "byte list"

fun status_of :: "message \<Rightarrow> nat" where
  "status_of (Voice s ds) = unat s"
| "status_of (MetaMsg t p) = 0xFF"
| "status_of (SysexMsg s p) = unat s"

fun body_bytes :: "message \<Rightarrow> byte list" where
  "body_bytes (Voice s ds) = ds"
| "body_bytes (MetaMsg t p) = t # vlq_encode (length p) @ p"
| "body_bytes (SysexMsg s p) = vlq_encode (length p) @ p"

fun wf_message :: "message \<Rightarrow> bool" where
  "wf_message (Voice s ds) =
     (0x80 \<le> unat s \<and> unat s < 0xF0 \<and>
      length ds = (if drop_bit 4 (unat s) = 0xC \<or> drop_bit 4 (unat s) = 0xD then 1 else 2) \<and>
      list_all (\<lambda>d. unat d < 0x80) ds)"
| "wf_message (MetaMsg t p) = True"
| "wf_message (SysexMsg s p) = (s = 0xF0 \<or> s = 0xF7)"

fun encode_message :: "bool \<Rightarrow> message \<Rightarrow> byte list" where
  "encode_message omit m = (if omit then [] else [of_nat (status_of m)]) @ body_bytes m"

fun encode_track :: "(nat \<times> bool \<times> message) list \<Rightarrow> byte list" where
  "encode_track [] = []"
| "encode_track ((delta, omit, m) # rest) = vlq_encode delta @ encode_message omit m @ encode_track rest"

definition explicit :: "(nat \<times> bool \<times> message) list \<Rightarrow> (nat \<times> bool \<times> message) list" where
  "explicit items = map (\<lambda>(delta, omit, m). (delta, False, m)) items"

fun stored_status :: "nat \<Rightarrow> message \<Rightarrow> nat" where
  "stored_status prev (Voice s ds) = unat s"
| "stored_status prev m = prev"

fun omission_ok :: "nat \<Rightarrow> bool \<Rightarrow> message \<Rightarrow> bool" where
  "omission_ok prev omit (Voice s ds) = (if omit then unat s = prev else True)"
| "omission_ok prev omit m = (if omit then False else True)"

fun running_status_ok :: "nat \<Rightarrow> (nat \<times> bool \<times> message) list \<Rightarrow> bool" where
  "running_status_ok prev [] = True"
| "running_status_ok prev ((delta, omit, m) # rest) =
     (omission_ok prev omit m \<and> running_status_ok (stored_status prev m) rest)"

text \<open>
  The status stored after a list of messages, and the messages that are meta or system
  exclusive events written with their status byte.
\<close>

fun status_after :: "nat \<Rightarrow> (nat \<times> bool \<times> message) list \<Rightarrow> nat" where
  "status_after prev [] = prev"
| "status_after prev ((delta, omit, m) # rest) = status_after (stored_status prev m) rest"

fun meta_or_sysex :: "nat \<times> bool \<times> message \<Rightarrow> bool" where
  "meta_or_sysex (delta, omit, Voice s ds) = False"
| "meta_or_sysex (delta, omit, m) = (if omit then False else True)"

text \<open>The kind the decoder gives to the body of a message that stands alone in a buffer.\<close>

definition message_kind :: "message \<Rightarrow> event_kind" where
  "message_kind m = (case decode_body (body_bytes m) (status_of m) 0 of
                       Inr (k, n) \<Rightarrow> k | Inl e \<Rightarrow> Untyped)"

text \<open>The events of a track, from its messages: the omission flags play no part.\<close>

fun item_events :: "nat \<Rightarrow> (nat \<times> bool \<times> message) list \<Rightarrow> event list" where
  "item_events ticks [] = []"
| "item_events ticks ((delta, omit, m) # rest) =
     \<lparr>absoluteTicks = ticks + delta, channel = status_of m AND 0x0F, kind = message_kind m\<rparr>
     # item_events (ticks + delta) rest"

section \<open>Step tempo: ticks to seconds\<close>

lemma float_range_lower: "(2::int) ^ 64 \<le> 2 ^ 1024 - 2 ^ 970"
proof -
  have "(2::int) ^ 970 * 2 \<le> 2 ^ 970 * 2 ^ 54" by (intro mult_left_mono) simp_all
  then have "(2::int) ^ 970 + 2 ^ 970 \<le> 2 ^ 1024" by (simp flip: power_add)
  moreover have "(2::int) ^ 64 \<le> 2 ^ 970" by (rule power_increasing) simp_all
  ultimately show ?thesis by linarith
qed

lemma int_div_float_in_range:
  assumes "\<bar>n\<bar> < 2 ^ 64" "x \<noteq> 0"
  shows "int_div_float n x = Inr (real_of_int n / x)"
proof -
  from assms(1) float_range_lower have "\<not> 2 ^ 1024 - 2 ^ 970 \<le> \<bar>n\<bar>" by linarith
  with assms(2) show ?thesis unfolding int_div_float_def by (simp only: if_False)
qed

text \<open>
  Claim C1, as stated: with the single tempo point (0, 500000) and 480 ticks per quarter
  note, tick 480 maps to 1.0 second. The code maps one quarter note at 500000 microseconds
  to half a second, so the statement fails at its own input.
\<close>

theorem C1_tick_480_is_not_one_second:
  "ticks_to_seconds 480 [(0, 500000)] 480 \<noteq> Inr 1"
  by (simp add: ticks_to_seconds_def int_div_float_in_range)

text \<open>
  Claim C1, amended: the tempo map built from no tempo event is the single point
  (0, 500000); with it and 480 ticks per quarter note, tick 480 maps to exactly 0.5
  seconds, and it is tick 960 that maps to 1.0 second.
\<close>

theorem C1_tick_480_is_half_a_second:
  "build_tempo_map [] = [(0, 500000)] \<and>
   ticks_to_seconds 480 [(0, 500000)] 480 = Inr (1 / 2) \<and>
   ticks_to_seconds 480 [(0, 500000)] 960 = Inr 1"
  by (simp add: ticks_to_seconds_def build_tempo_map_def int_div_float_in_range)

section \<open>Ramp tempo: beats to seconds\<close>

lemma ln_2_bounds: "1 / 2 < ln (2::real) \<and> ln (2::real) < 1"
proof
  have "exp (1/2 :: real) \<le> 1 + 1/2 + (1/2)\<^sup>2" by (rule exp_bound) simp_all
  also have "\<dots> < 2" by (simp add: power2_eq_square)
  finally have "ln (exp (1/2 :: real)) < ln 2" by (subst ln_less_cancel_iff) simp_all
  then show "1 / 2 < ln (2::real)" by simp
next
  show "ln (2::real) < 1" by (rule ln_2_less_1)
qed

lemma interpolated_bpm_pos:
  fixes v1 v2 t1 t2 beats :: real
  assumes "0 < v1" "0 < v2" "t1 < beats" "beats < t2"
  shows "0 < v1 + (v2 - v1) / (t2 - t1) * (beats - t1)"
proof -
  define f where "f = (beats - t1) / (t2 - t1)"
  have f: "0 < f" "f < 1" using assms by (simp_all add: f_def)
  have "(v2 - v1) / (t2 - t1) * (beats - t1) = (v2 - v1) * f"
    by (simp add: f_def)
  then have "v1 + (v2 - v1) / (t2 - t1) * (beats - t1) = (1 - f) * v1 + f * v2"
    by (simp add: algebra_simps)
  also have "\<dots> > 0" using f assms by (simp add: add_pos_pos)
  finally show ?thesis .
qed

lemma full_segment:
  assumes "0 < v1" "0 < v2" "t1 < t2" "t2 \<le> beats"
  shows "segments_loop beats ((t1, v1) # (t2, v2) # rest) acc =
         segments_loop beats ((t2, v2) # rest)
           (acc + (if \<bar>v2 - v1\<bar> < 0.0001 then (t2 - t1) * 60 / v1
                     else (60 / ((v2 - v1) / (t2 - t1))) * ln (v2 / v1)))"
proof (cases "\<bar>v2 - v1\<bar> < 0.0001")
  case True
  with assms show ?thesis by (simp add: constant_time_def)
next
  case False
  then have "v2 \<noteq> v1" by auto
  moreover have "\<not> v2 / v1 \<le> 0" using assms by (simp add: not_le)
  ultimately show ?thesis using False assms by (simp add: ramp_time_def)
qed

lemma partial_segment:
  assumes "0 < v1" "0 < v2" "t1 < beats" "beats < t2"
  shows "segments_loop beats ((t1, v1) # (t2, v2) # rest) acc =
         Inr (Returned (acc +
           (if \<bar>(v2 - v1) / (t2 - t1)\<bar> < 0.0001 then (beats - t1) * 60 / v1
            else (60 / ((v2 - v1) / (t2 - t1))) *
                 ln ((v1 + (v2 - v1) / (t2 - t1) * (beats - t1)) / v1))))"
proof (cases "\<bar>(v2 - v1) / (t2 - t1)\<bar> < 0.0001")
  case True
  with assms show ?thesis by (simp add: constant_time_def Let_def)
next
  case False
  then have s: "(v2 - v1) / (t2 - t1) \<noteq> 0" by auto
  have p: "0 < (v1 + (v2 - v1) / (t2 - t1) * (beats - t1)) / v1"
    using interpolated_bpm_pos [OF assms] assms(1) by simp
  from False s p assms show ?thesis by (simp add: ramp_time_def Let_def not_le)
qed

text \<open>
  The full segment of the claim's example: from beat 0 at 60 BPM to beat 1 at 120 BPM the
  time is ln 2 seconds, strictly between 0.5 and 1.
\<close>

lemma octave_ramp:
  "beats_to_seconds 1 60 [(0, 60), (1, 120)] = Inr (ln 2) \<and> 1 / 2 < ln (2::real) \<and> ln (2::real) < 1"
  using ln_2_bounds by (simp add: beats_to_seconds_def ramp_time_def)

lemma ln_ramp_upper: "ln (1 + 1 / 65536 :: real) < 1 / 65536 - 1 / 34359738368"
proof -
  define y :: real where "y = 1 / 65536 - 1 / 34359738368"
  have y0: "0 \<le> y" by (simp add: y_def)
  have "1 + 1 / 65536 < 1 + y + y\<^sup>2 / 2"
    by (simp add: y_def power2_eq_square)
  also have "\<dots> \<le> exp y" by (rule exp_lower_Taylor_quadratic [OF y0])
  finally have "ln (1 + 1 / 65536 :: real) < ln (exp y)"
    by (subst ln_less_cancel_iff) simp_all
  then show ?thesis by (simp add: y_def)
qed

text \<open>
  Claim C2 chooses between the constant and the logarithmic formula by
  \<open>\<bar>v2 - v1\<bar> < 0.0001\<close>, for a full segment and for a partial span alike. The code does so
  for a full segment (line 182) but tests \<open>\<bar>slope\<bar> < 0.0001\<close> for a partial span (line 197).
  On the segment from (0, 64) to (16, 64 + 1/1024) the rates differ by 1/1024, which is
  not below the threshold, and the slope 1/16384 is. So the time at beat 8 is
  8 * 60 / 64 = 7.5 seconds and not (60 / slope) * ln (v_end / v1); and since the two
  tests disagree on this segment, the time is not monotonic: beat 16 - 1/32768, inside the
  segment, is given 15 - 15/524288 seconds by the constant formula, and the later beat 16,
  the end of the segment, is given 983040 * ln (1 + 1/65536) seconds by the logarithmic
  one, which is less.
\<close>

theorem C2_slope_test_makes_time_decrease:
  "\<not> \<bar>(64 + 1 / 1024) - (64::real)\<bar> < 0.0001 \<and>
   beats_to_seconds 8 120 [(0, 64), (16, 64 + 1 / 1024)] = Inr (15 / 2) \<and>
   (60 / ((64 + 1 / 1024 - 64) / (16 - 0))) *
     ln ((64 + ((64 + 1 / 1024 - 64) / (16 - 0)) * (8 - 0)) / 64) \<noteq> (15 / 2 :: real) \<and>
   beats_to_seconds (16 - 1 / 32768) 120 [(0, 64), (16, 64 + 1 / 1024)] = Inr (15 - 15 / 524288) \<and>
   beats_to_seconds 16 120 [(0, 64), (16, 64 + 1 / 1024)] = Inr (983040 * ln (1 + 1 / 65536)) \<and>
   983040 * ln (1 + 1 / 65536 :: real) < 15 - 15 / 524288"
proof (intro conjI)
  show "beats_to_seconds 8 120 [(0, 64), (16, 64 + 1 / 1024)] = Inr (15 / 2)"
    by (simp add: beats_to_seconds_def constant_time_def Let_def)
  show "\<not> \<bar>(64 + 1 / 1024) - (64::real)\<bar> < 0.0001" by simp
  have "ln (1 + 1 / 131072 :: real) < 1 / 131072"
    by (rule ln_add_one_self_less_self) simp
  then have "983040 * ln (1 + 1 / 131072 :: real) < 15 / 2" by simp
  moreover have "(64 + ((64 + 1 / 1024 - 64) / (16 - 0)) * (8 - 0)) / 64 = (1 + 1 / 131072 :: real)" by simp
  ultimately show "(60 / ((64 + 1 / 1024 - 64) / (16 - 0))) * ln ((64 + ((64 + 1 / 1024 - 64) / (16 - 0)) * (8 - 0)) / 64) \<noteq> (15 / 2 :: real)"
    by simp
  show "beats_to_seconds (16 - 1 / 32768) 120 [(0, 64), (16, 64 + 1 / 1024)] = Inr (15 - 15 / 524288)"
    by (simp add: beats_to_seconds_def constant_time_def Let_def)
  have "(64 + 1 / 1024) / 64 = (1 + 1 / 65536 :: real)" by simp
  then show "beats_to_seconds 16 120 [(0, 64), (16, 64 + 1 / 1024)] = Inr (983040 * ln (1 + 1 / 65536))"
    by (simp add: beats_to_seconds_def ramp_time_def Let_def)
  show "983040 * ln (1 + 1 / 65536 :: real) < 15 - 15 / 524288"
    using ln_ramp_upper by simp
qed

section \<open>Order of simultaneous notes\<close>

text \<open>
  Claim C3 says that a Note Off stands before a Note On of the same tick. The sort key
  of line 333 is the pair (tick, type is noteOff), and False sorts before True, so the
  code puts the Note On first. Two notes played legato in the track Violin I, the second
  starting at beat 1 where the first ends, at 120 BPM: the events appended for them, and
  the track as it is written out.
\<close>

theorem C3_note_on_sorted_before_note_off:
  "note_events 120 [] 0 0 0 0 1 60 (1 / 2) (1 / 2) =
     Inr [\<lparr>daw_absoluteTicks = 0, daw_channel = 13, daw_type = DawNoteOn 60 63 (1 / 2), daw_time = 0\<rparr>,
          \<lparr>daw_absoluteTicks = 960, daw_channel = 13, daw_type = DawNoteOff 60 63 (1 / 2), daw_time = 1 / 2\<rparr>] \<and>
   note_events 120 [] 0 0 0 1 1 62 (1 / 2) (1 / 2) =
     Inr [\<lparr>daw_absoluteTicks = 960, daw_channel = 13, daw_type = DawNoteOn 62 63 (1 / 2), daw_time = 1 / 2\<rparr>,
          \<lparr>daw_absoluteTicks = 1920, daw_channel = 13, daw_type = DawNoteOff 62 63 (1 / 2), daw_time = 1\<rparr>] \<and>
   finish_track
     [\<lparr>daw_absoluteTicks = 0, daw_channel = 15, daw_type = DawTrackName ''Violin I'', daw_time = 0\<rparr>,
      \<lparr>daw_absoluteTicks = 0, daw_channel = 13, daw_type = DawNoteOn 60 63 (1 / 2), daw_time = 0\<rparr>,
      \<lparr>daw_absoluteTicks = 960, daw_channel = 13, daw_type = DawNoteOff 60 63 (1 / 2), daw_time = 1 / 2\<rparr>,
      \<lparr>daw_absoluteTicks = 960, daw_channel = 13, daw_type = DawNoteOn 62 63 (1 / 2), daw_time = 1 / 2\<rparr>,
      \<lparr>daw_absoluteTicks = 1920, daw_channel = 13, daw_type = DawNoteOff 62 63 (1 / 2), daw_time = 1\<rparr>] =
     [\<lparr>daw_absoluteTicks = 0, daw_channel = 15, daw_type = DawTrackName ''Violin I'', daw_time = 0\<rparr>,
      \<lparr>daw_absoluteTicks = 0, daw_channel = 13, daw_type = DawNoteOn 60 63 (1 / 2), daw_time = 0\<rparr>,
      \<lparr>daw_absoluteTicks = 960, daw_channel = 13, daw_type = DawNoteOn 62 63 (1 / 2), daw_time = 1 / 2\<rparr>,
      \<lparr>daw_absoluteTicks = 960, daw_channel = 13, daw_type = DawNoteOff 60 63 (1 / 2), daw_time = 1 / 2\<rparr>,
      \<lparr>daw_absoluteTicks = 1920, daw_channel = 13, daw_type = DawNoteOff 62 63 (1 / 2), daw_time = 1\<rparr>,
      \<lparr>daw_absoluteTicks = 1920, daw_channel = 15, daw_type = DawEndOfTrack, daw_time = 1\<rparr>]"
proof (intro conjI)
  show "note_events 120 [] 0 0 0 0 1 60 (1 / 2) (1 / 2) =
     Inr [\<lparr>daw_absoluteTicks = 0, daw_channel = 13, daw_type = DawNoteOn 60 63 (1 / 2), daw_time = 0\<rparr>,
          \<lparr>daw_absoluteTicks = 960, daw_channel = 13, daw_type = DawNoteOff 60 63 (1 / 2), daw_time = 1 / 2\<rparr>]"
    by (simp add: note_events_def beats_to_seconds_def constant_time_def py_int_def)
  show "note_events 120 [] 0 0 0 1 1 62 (1 / 2) (1 / 2) =
     Inr [\<lparr>daw_absoluteTicks = 960, daw_channel = 13, daw_type = DawNoteOn 62 63 (1 / 2), daw_time = 1 / 2\<rparr>,
          \<lparr>daw_absoluteTicks = 1920, daw_channel = 13, daw_type = DawNoteOff 62 63 (1 / 2), daw_time = 1\<rparr>]"
    by (simp add: note_events_def beats_to_seconds_def constant_time_def py_int_def)
qed (simp add: finish_track_def sort_key_of_def is_daw_note_off_def)

section \<open>Variable-length quantities: what the decoder accepts\<close>

declare read_variable_length_loop.simps [simp del]
declare vlq_prefix.simps [simp del]

lemma and_7F: "(x::nat) AND 0x7F = x mod 128"
proof -
  have "x AND 0x7F = take_bit 7 x" by (simp add: take_bit_eq_mask mask_eq_exp_minus_1)
  then show ?thesis by (simp add: take_bit_eq_mod)
qed

lemma accumulate_arith: "push_bit 7 (v::nat) OR (x AND 0x7F) = v * 128 + x mod 128"
proof -
  have "push_bit 7 v AND take_bit 7 x = 0"
    by (auto simp: bit_eq_iff bit_simps)
  then have "push_bit 7 v + take_bit 7 x = push_bit 7 v OR take_bit 7 x"
    by (rule disjunctive_add_eq_or)
  then show ?thesis
    by (simp add: and_7F push_bit_eq_mult take_bit_eq_mod)
qed

lemma and_80_iff: "(x::nat) AND 0x80 = 0 \<longleftrightarrow> \<not> bit x 7"
proof -
  have "x AND 2 ^ 7 = 0 \<longleftrightarrow> \<not> bit x 7"
    by (simp add: and_exp_eq_0_iff_not_bit del: power_numeral)
  then show ?thesis by simp
qed

lemma top_bit_clear: "m < 128 \<Longrightarrow> (m::nat) AND 0x80 = 0"
  by (simp add: and_80_iff bit_iff_odd)

lemma top_bit_set: "m < 128 \<Longrightarrow> (m + 128 :: nat) AND 0x80 \<noteq> 0"
  by (simp add: and_80_iff bit_iff_odd)

lemma unat_continuation: "m < 128 \<Longrightarrow> unat ((of_nat m :: byte) OR 0x80) = m + 128"
proof -
  assume m: "m < 128"
  have "m AND 128 = 0" using m top_bit_clear by simp
  then have "m + 128 = m OR 128" by (rule disjunctive_add_eq_or)
  moreover have "unat ((of_nat m :: byte) OR 0x80) = m OR 128"
    using m by (simp add: unsigned_or_eq unat_of_nat)
  ultimately show ?thesis by simp
qed

lemma unat_final: "m < 128 \<Longrightarrow> unat (of_nat m :: byte) = m"
  by (simp add: unat_of_nat)

lemma drop_append_nth:
  assumes "drop off data = xs @ y # rest"
  shows "off + length xs < length data" and "data ! (off + length xs) = y"
proof -
  have "length (drop off data) = length xs + Suc (length rest)" using assms by simp
  then show l: "off + length xs < length data" by simp
  then have "data ! (off + length xs) = drop off data ! length xs" by simp
  also have "\<dots> = y" using assms by simp
  finally show "data ! (off + length xs) = y" .
qed

lemma loop_step_continue:
  assumes "off < length data" "unat (data ! off) AND 0x80 \<noteq> 0"
  shows "read_variable_length_loop data val off =
         read_variable_length_loop data (accumulate val (data ! off)) (off + 1)"
  using assms
  by (subst read_variable_length_loop.simps) (simp add: byte_at_def accumulate_def)

lemma loop_step_stop:
  assumes "off < length data" "unat (data ! off) AND 0x80 = 0"
  shows "read_variable_length_loop data val off = Inr (accumulate val (data ! off), off + 1)"
  using assms
  by (subst read_variable_length_loop.simps) (simp add: byte_at_def accumulate_def)

lemma loop_prefix:
  "drop off data = vlq_prefix n @ rest \<Longrightarrow>
   read_variable_length_loop data acc off =
   read_variable_length_loop data (acc * 128 ^ length (vlq_prefix n) + n) (off + length (vlq_prefix n))"
proof (induction n arbitrary: rest rule: vlq_prefix.induct)
  case (1 v)
  show ?case
  proof (cases "v = 0")
    case True
    then show ?thesis by (simp add: vlq_prefix.simps)
  next
    case False
    let ?k = "length (vlq_prefix (v div 128))"
    let ?b = "(of_nat (v mod 128) OR 0x80) :: byte"
    from False have pre: "vlq_prefix v = vlq_prefix (v div 128) @ [?b]"
      by (subst vlq_prefix.simps) simp
    with "1.prems" have d: "drop off data = vlq_prefix (v div 128) @ ?b # rest" by simp
    from "1.IH" [OF False d]
    have step1: "read_variable_length_loop data acc off =
       read_variable_length_loop data (acc * 128 ^ ?k + v div 128) (off + ?k)" .
    note at = drop_append_nth [OF d]
    have m: "v mod 128 < 128" by simp
    have u: "unat ?b = v mod 128 + 128" using unat_continuation [OF m] .
    have hb: "unat (data ! (off + ?k)) AND 0x80 \<noteq> 0"
      using top_bit_set [OF m] by (simp add: at(2) u)
    have "read_variable_length_loop data (acc * 128 ^ ?k + v div 128) (off + ?k) =
          read_variable_length_loop data (accumulate (acc * 128 ^ ?k + v div 128) ?b) (off + ?k + 1)"
      using loop_step_continue [OF at(1) hb] unfolding at(2) .
    also have "accumulate (acc * 128 ^ ?k + v div 128) ?b = acc * 128 ^ length (vlq_prefix v) + v"
      by (simp add: accumulate_def u accumulate_arith pre algebra_simps)
    also have "off + ?k + 1 = off + length (vlq_prefix v)" by (simp add: pre)
    finally show ?thesis using step1 by simp
  qed
qed

lemma read_vlq_encode:
  assumes d: "drop off data = vlq_encode v @ rest"
  shows "read_variable_length data off = Inr (v, off + length (vlq_encode v))"
proof -
  let ?k = "length (vlq_prefix (v div 128))"
  let ?b = "of_nat (v mod 128) :: byte"
  from d have d': "drop off data = vlq_prefix (v div 128) @ ?b # rest"
    by (simp add: vlq_encode_def)
  note at = drop_append_nth [OF d']
  have m: "v mod 128 < 128" by simp
  have u: "unat ?b = v mod 128" using unat_final [OF m] .
  have "read_variable_length data off = read_variable_length_loop data (v div 128) (off + ?k)"
    using loop_prefix [OF d', of 0] by (simp add: read_variable_length_def)
  also have "\<dots> = Inr (accumulate (v div 128) ?b, off + ?k + 1)"
  proof -
    have hb: "unat (data ! (off + ?k)) AND 0x80 = 0"
      using top_bit_clear [OF m] by (simp add: at(2) u)
    show ?thesis using loop_step_stop [OF at(1) hb] unfolding at(2) .
  qed
  also have "accumulate (v div 128) ?b = v"
    by (simp add: accumulate_def u accumulate_arith)
  finally show ?thesis by (simp add: vlq_encode_def)
qed

lemma vlq_prefix_length: "v < 128 ^ n \<Longrightarrow> length (vlq_prefix v) \<le> n"
proof (induction n arbitrary: v)
  case 0
  then show ?case by (simp add: vlq_prefix.simps)
next
  case (Suc n)
  show ?case
  proof (cases "v = 0")
    case True
    then show ?thesis by (simp add: vlq_prefix.simps)
  next
    case False
    from Suc.prems have "v div 128 < 128 ^ n" by (simp add: less_mult_imp_div_less mult.commute)
    from Suc.IH [OF this] False show ?thesis by (subst vlq_prefix.simps) simp
  qed
qed

lemma vlq_encode_length: "v < 2 ^ 28 \<Longrightarrow> length (vlq_encode v) \<le> 4"
proof -
  assume "v < 2 ^ 28"
  then have "v div 128 < 128 ^ 3" by simp
  from vlq_prefix_length [OF this] show ?thesis by (simp add: vlq_encode_def)
qed

lemma loop_fold:
  "off + k < length data \<Longrightarrow>
   \<forall>b \<in> set (take k (drop off data)). unat b AND 0x80 \<noteq> 0 \<Longrightarrow>
   unat (data ! (off + k)) AND 0x80 = 0 \<Longrightarrow>
   read_variable_length_loop data val off =
     Inr (foldl accumulate val (take (Suc k) (drop off data)), off + k + 1)"
proof (induction k arbitrary: val off)
  case 0
  then show ?case
    using loop_step_stop [of off data val] by (simp add: take_Suc_conv_app_nth)
next
  case (Suc k)
  have l: "off < length data" using Suc.prems(1) by simp
  then have dr: "drop off data = data ! off # drop (Suc off) data"
    by (simp add: Cons_nth_drop_Suc)
  have hd: "unat (data ! off) AND 0x80 \<noteq> 0" using Suc.prems(2) dr by simp
  have tl: "\<forall>b \<in> set (take k (drop (Suc off) data)). unat b AND 0x80 \<noteq> 0"
    using Suc.prems(2) dr by simp
  have "read_variable_length_loop data val off =
        read_variable_length_loop data (accumulate val (data ! off)) (Suc off)"
    using loop_step_continue [OF l hd] by simp
  also have "\<dots> = Inr (foldl accumulate (accumulate val (data ! off))
                       (take (Suc k) (drop (Suc off) data)), Suc off + k + 1)"
    using Suc.prems by (intro Suc.IH tl) simp_all
  finally show ?case by (simp add: dr)
qed

lemma loop_index_error:
  "\<forall>b \<in> set (drop off data). unat b AND 0x80 \<noteq> 0 \<Longrightarrow>
   read_variable_length_loop data val off = Inl IndexError"
proof (induction data val off rule: read_variable_length_loop.induct)
  case (1 data val off)
  show ?case
  proof (cases "off < length data")
    case False
    then show ?thesis by (subst read_variable_length_loop.simps) (simp add: byte_at_def)
  next
    case True
    then have dr: "drop off data = data ! off # drop (Suc off) data"
      by (simp add: Cons_nth_drop_Suc)
    have hd: "unat (data ! off) AND 0x80 \<noteq> 0" using "1.prems" dr by simp
    have tl: "\<forall>b \<in> set (drop (off + 1) data). unat b AND 0x80 \<noteq> 0" using "1.prems" dr by simp
    have b: "byte_at data off = Inr (unat (data ! off))" using True by (simp add: byte_at_def)
    from "1.IH" [OF b refl refl hd tl] loop_step_continue [OF True hd, of val]
    show ?thesis by (simp add: accumulate_def)
  qed
qed

text \<open>
  Claim C4, as stated, caps the decoder at 32 bits and lets a longer encoding fail with
  \<^verbatim>\<open>MalformedVarint\<close>. The loop of \<^verbatim>\<open>read_variable_length\<close> has no bound and the program no
  such error: five bytes decode to a value of 35 bits.
\<close>

theorem C4_five_byte_quantity_is_accepted:
  "read_variable_length [0xFF, 0xFF, 0xFF, 0xFF, 0x7F] 0 = Inr (34359738367, 5) \<and>
   (2::nat) ^ 32 \<le> 34359738367"
  by (simp add: read_variable_length_def read_variable_length_loop.simps byte_at_def)

text \<open>
  Claim C4, amended: decoding accumulates seven bits for each byte by
  \<^verbatim>\<open>value = (value << 7) | (byte & 0x7F)\<close> and goes on while the top bit of the byte is
  set, for any number \<open>k\<close> of such bytes; the result is the fold of that assignment over
  the \<open>k + 1\<close> bytes read, and the offset after them. There is no cap on the width. The
  only failure is \<^verbatim>\<open>IndexError\<close>, raised when every byte from the offset to the end
  of the buffer has its top bit set.
\<close>

theorem C4_decoding_has_no_width_limit:
  "(off + k < length data \<and>
    (\<forall>b \<in> set (take k (drop off data)). unat b AND 0x80 \<noteq> 0) \<and>
    unat (data ! (off + k)) AND 0x80 = 0 \<longrightarrow>
    read_variable_length data off =
      Inr (foldl accumulate 0 (take (Suc k) (drop off data)), off + k + 1)) \<and>
   ((\<forall>b \<in> set (drop off data). unat b AND 0x80 \<noteq> 0) \<longrightarrow>
    read_variable_length data off = Inl IndexError)"
  unfolding read_variable_length_def
  using loop_fold [of off k data 0] loop_index_error [of off data 0] by blast

theorem C4_decoding_has_no_width_limit_witness:
  "read_variable_length [0x00, 0x81, 0x80, 0x00, 0x40] 1 = Inr (16384, 4) \<and>
   read_variable_length [0x00, 0x81, 0x80] 1 = Inl IndexError"
  using C4_decoding_has_no_width_limit [of 1 2 "[0x00, 0x81, 0x80, 0x00, 0x40]"]
    C4_decoding_has_no_width_limit [of 1 0 "[0x00, 0x81, 0x80]"]
  by (simp add: accumulate_def)

text \<open>
  Claim C5: for every \<open>v\<close> below \<open>2 ^ 28\<close>, decoding the canonical encoding of \<open>v\<close>,
  wherever it stands in a buffer, yields \<open>v\<close> and the offset just after the encoding,
  which has at most four bytes.
\<close>

theorem C5_decode_encode_roundtrip:
  "v < 2 ^ 28 \<Longrightarrow>
   read_variable_length (pre @ vlq_encode v @ rest) (length pre) =
     Inr (v, length pre + length (vlq_encode v)) \<and>
   length (vlq_encode v) \<le> 4"
  using read_vlq_encode [of "length pre" "pre @ vlq_encode v @ rest" v rest] vlq_encode_length [of v]
  by simp

theorem C5_decode_encode_roundtrip_witness:
  "(268435455::nat) < 2 ^ 28 \<and> vlq_encode 268435455 = [0xFF, 0xFF, 0xFF, 0x7F] \<and>
   read_variable_length ([0x00] @ [0xFF, 0xFF, 0xFF, 0x7F] @ [0x90]) 1 = Inr (268435455, 5)"
  using C5_decode_encode_roundtrip [of 268435455 "[0x00]" "[0x90]"]
  by (simp add: vlq_encode_def vlq_prefix.simps)

section \<open>Rescaling to a target duration\<close>






section \<open>Running status\<close>

lemma byte_at_in_drop:
  assumes "drop off data = xs @ rest" "i < length xs"
  shows "byte_at data (off + i) = Inr (unat (xs ! i))"
proof -
  have "length (drop off data) = length xs + length rest" using assms(1) by simp
  with assms(2) have l: "off + i < length data" by simp
  then have "data ! (off + i) = drop off data ! i" by simp
  also have "\<dots> = xs ! i" using assms by (simp add: nth_append)
  finally show ?thesis using l by (simp add: byte_at_def)
qed

lemma drop_after:
  assumes "drop off data = xs @ rest"
  shows "drop (off + length xs) data = rest"
proof -
  have "drop (off + length xs) data = drop (length xs) (drop off data)"
    by (simp add: add.commute)
  then show ?thesis using assms by simp
qed

lemma slice_in_drop:
  assumes "drop off data = xs @ rest"
  shows "slice data off (off + length xs) = xs"
  using assms by (simp add: slice_def)

lemma read2_in_drop:
  assumes "drop off data = a # b # rest"
  shows "read2 data off = Inr (unat a, unat b)"
proof -
  from assms have d: "drop off data = [a, b] @ rest" by simp
  from byte_at_in_drop [OF d, of 0] byte_at_in_drop [OF d, of 1]
  show ?thesis by (simp add: read2_def)
qed

lemma read1_in_drop:
  assumes "drop off data = a # rest"
  shows "byte_at data off = Inr (unat a)"
proof -
  from assms have d: "drop off data = [a] @ rest" by simp
  from byte_at_in_drop [OF d, of 0] show ?thesis by simp
qed

lemma decode_voice_in_drop:
  assumes "0x80 \<le> s" "s < 0xF0"
    and "length ds = (if drop_bit 4 s = 0xC \<or> drop_bit 4 s = 0xD then 1 else 2)"
    and "drop off data = ds @ rest"
  shows "decode_voice data (drop_bit 4 s) off =
         map_sum id (\<lambda>(k, n). (k, off + n)) (decode_voice ds (drop_bit 4 s) 0)
       \<and> (\<exists>k. decode_voice ds (drop_bit 4 s) 0 = Inr (k, length ds))"
proof (cases "drop_bit 4 s = 0xC \<or> drop_bit 4 s = 0xD")
  case True
  with assms(3) obtain a where ds: "ds = [a]" by (auto simp: length_Suc_conv)
  have 1: "byte_at data off = Inr (unat a)" using read1_in_drop [of off data a rest] assms(4) ds by simp
  have 2: "byte_at [a] 0 = Inr (unat a)" by (simp add: byte_at_def)
  from True show ?thesis by (auto simp: decode_voice_def 1 2 ds)
next
  case False
  with assms(3) obtain a b where ds: "ds = [a, b]" by (auto simp: length_Suc_conv numeral_2_eq_2)
  have 1: "read2 data off = Inr (unat a, unat b)" using read2_in_drop [of off data a b rest] assms(4) ds by simp
  have 2: "read2 [a, b] 0 = Inr (unat a, unat b)" by (simp add: read2_def byte_at_def)
  have "s div 16 \<ge> 8" "s div 16 \<le> 14" using assms(1,2) by simp_all
  then have t: "drop_bit 4 s = 8 \<or> drop_bit 4 s = 9 \<or> drop_bit 4 s = 10 \<or> drop_bit 4 s = 11 \<or>
                drop_bit 4 s = 12 \<or> drop_bit 4 s = 13 \<or> drop_bit 4 s = 14"
    by (simp add: drop_bit_eq_div) arith
  from False t show ?thesis by (auto simp: decode_voice_def 1 2 ds)
qed


lemma decode_meta_value:
  assumes "drop off data = t # vlq_encode (length p) @ p @ rest"
  shows "decode_meta data off =
         (let n = 1 + length (vlq_encode (length p)) + length p
          in if unat t = 0x51 \<and> length p = 3 then
               Inr (Meta (unat t) (SetTempo (push_bit 16 (unat (p ! 0)) OR
                      push_bit 8 (unat (p ! 1)) OR unat (p ! 2))), off + n)
             else if unat t = 0x03 then Inr (Meta (unat t) (TrackName p), off + n)
             else if unat t = 0x2F then Inr (Meta (unat t) EndOfTrack, off + n)
             else Inr (Meta (unat t) Unknown, off + n))"
proof -
  define off1 where "off1 = off + 1 + length (vlq_encode (length p))"
  have 1: "byte_at data off = Inr (unat t)" using read1_in_drop [OF assms] .
  have d1: "drop (off + 1) data = vlq_encode (length p) @ (p @ rest)"
    using drop_after [of off data "[t]"] assms by simp
  have 2: "read_variable_length data (off + 1) = Inr (length p, off1)"
    using read_vlq_encode [OF d1] by (simp add: off1_def)
  have d2: "drop off1 data = p @ rest"
    using drop_after [OF d1] by (simp add: off1_def)
  have 3: "slice data off1 (off1 + length p) = p"
    using slice_in_drop [OF d2] .
  have 4: "off1 + length p = off + (1 + length (vlq_encode (length p)) + length p)"
    by (simp add: off1_def)
  have "decode_meta data off =
         (if unat t = 0x51 \<and> length p = 3 then
            (if length p < 3 then Inl IndexError
             else Inr (Meta (unat t) (SetTempo (push_bit 16 (unat (p ! 0)) OR
                      push_bit 8 (unat (p ! 1)) OR unat (p ! 2))), off1 + length p))
          else if unat t = 0x03 then Inr (Meta (unat t) (TrackName p), off1 + length p)
          else if unat t = 0x2F then Inr (Meta (unat t) EndOfTrack, off1 + length p)
          else Inr (Meta (unat t) Unknown, off1 + length p))"
    unfolding decode_meta_def Let_def
    by (simp only: 1 2 3 sum.case prod.case)
  then show ?thesis
    unfolding 4 Let_def by simp
qed

lemma decode_sysex_value:
  assumes "drop off data = vlq_encode (length p) @ p @ rest"
  shows "decode_sysex data off = Inr (Sysex, off + (length (vlq_encode (length p)) + length p))"
  using read_vlq_encode [OF assms] by (simp add: decode_sysex_def)

lemma decode_body_message:
  assumes "wf_message m" "drop off data = body_bytes m @ rest"
  shows "decode_body data (status_of m) off = Inr (message_kind m, off + length (body_bytes m))"
proof (cases m)
  case (Voice s ds)
  with assms(1) have r: "0x80 \<le> unat s" "unat s < 0xF0"
    and l: "length ds = (if drop_bit 4 (unat s) = 0xC \<or> drop_bit 4 (unat s) = 0xD then 1 else 2)"
    by simp_all
  from r have n: "unat s \<noteq> 0xFF" "unat s \<noteq> 0xF0" "unat s \<noteq> 0xF7" by simp_all
  from assms(2) Voice have d: "drop off data = ds @ rest" by simp
  from decode_voice_in_drop [OF r l d] obtain k where
    k: "decode_voice ds (drop_bit 4 (unat s)) 0 = Inr (k, length ds)"
    and v: "decode_voice data (drop_bit 4 (unat s)) off = Inr (k, off + length ds)"
    by auto
  from k n have "message_kind m = k" by (simp add: message_kind_def decode_body_def Voice)
  with v n show ?thesis by (simp add: decode_body_def Voice)
next
  case (MetaMsg t p)
  with assms(2) have d: "drop off data = t # vlq_encode (length p) @ p @ rest" by simp
  have d0: "drop 0 (body_bytes m) = t # vlq_encode (length p) @ p @ []" by (simp add: MetaMsg)
  show ?thesis
    using decode_meta_value [OF d] decode_meta_value [OF d0]
    by (simp add: message_kind_def decode_body_def MetaMsg Let_def)
next
  case (SysexMsg s p)
  with assms(1) have s: "unat s = 0xF0 \<or> unat s = 0xF7" by auto
  from assms(2) SysexMsg have d: "drop off data = vlq_encode (length p) @ p @ rest" by simp
  have d0: "drop 0 (body_bytes m) = vlq_encode (length p) @ p @ []" by (simp add: SysexMsg)
  show ?thesis
    using decode_sysex_value [OF d] decode_sysex_value [OF d0] s
    by (auto simp: message_kind_def decode_body_def SysexMsg)
qed


lemma decode_event_unfold:
  assumes "read_variable_length data (offset st) = Inr (delta, off1)"
    and "byte_at data off1 = Inr status0"
    and "resolve_status status0 off1 (last_status st) = Some (status, off2, new_last)"
    and "decode_body data status off2 = Inr (k, off3)"
  shows "decode_event data st =
         Inr (Continue (st\<lparr>offset := off3, absolute_ticks := absolute_ticks st + delta,
                last_status := new_last,
                track_events := track_events st @
                  [\<lparr>absoluteTicks = absolute_ticks st + delta, channel = status AND 0x0F, kind = k\<rparr>],
                all_events := (if is_set_tempo k
                   then all_events st @
                     [\<lparr>absoluteTicks = absolute_ticks st + delta, channel = status AND 0x0F, kind = k\<rparr>]
                   else all_events st)\<rparr>))"
  using assms by (simp add: decode_event_def Let_def)

lemma status_of_byte: "wf_message m \<Longrightarrow> unat (of_nat (status_of m) :: byte) = status_of m"
  by (cases m) (auto simp: unat_of_nat)

lemma resolve_explicit:
  "wf_message m \<Longrightarrow>
   resolve_status (status_of m) off prev = Some (status_of m, off + 1, stored_status prev m)"
  by (cases m) (auto simp: resolve_status_def)

lemma resolve_running:
  "status0 < 0x80 \<Longrightarrow> 0x80 \<le> prev \<Longrightarrow> resolve_status status0 off prev = Some (prev, off, prev)"
  by (simp add: resolve_status_def)

lemma vlq_encode_nonempty: "vlq_encode v \<noteq> []"
  by (simp add: vlq_encode_def)

lemma decode_event_item:
  assumes wf: "wf_message m"
    and ok: "omission_ok (last_status st) omit m"
    and d: "drop (offset st) data = vlq_encode delta @ encode_message omit m @ rest"
  shows "\<exists>st'. decode_event data st = Inr (Continue st') \<and>
           offset st' = offset st + length (vlq_encode delta) + length (encode_message omit m) \<and>
           absolute_ticks st' = absolute_ticks st + delta \<and>
           last_status st' = stored_status (last_status st) m \<and>
           track_events st' = track_events st @ item_events (absolute_ticks st) [(delta, omit, m)] \<and>
           all_events st' = all_events st @
             filter (\<lambda>e. is_set_tempo (kind e)) (item_events (absolute_ticks st) [(delta, omit, m)])"
proof -
  define off1 where "off1 = offset st + length (vlq_encode delta)"
  have rv: "read_variable_length data (offset st) = Inr (delta, off1)"
    using read_vlq_encode [OF d] by (simp add: off1_def)
  have d1: "drop off1 data = encode_message omit m @ rest"
    using drop_after [OF d] by (simp add: off1_def)
  show ?thesis
  proof (cases omit)
    case False
    with d1 have d1': "drop off1 data = of_nat (status_of m) # body_bytes m @ rest" by simp
    have b: "byte_at data off1 = Inr (status_of m)"
      using read1_in_drop [OF d1'] status_of_byte [OF wf] by simp
    have d2: "drop (off1 + 1) data = body_bytes m @ rest"
      using drop_after [of off1 data "[of_nat (status_of m)]"] d1' by simp
    note body = decode_body_message [OF wf d2]
    from decode_event_unfold [OF rv b resolve_explicit [OF wf] body] False
    show ?thesis by (simp add: off1_def)
  next
    case True
    with ok obtain s ds where m: "m = Voice s ds" and prev: "last_status st = unat s"
      by (cases m) auto
    from wf m have r: "0x80 \<le> unat s" and ne: "ds \<noteq> []" and small: "unat (ds ! 0) < 0x80"
      by (auto simp: list_all_length split: if_splits)
    from d1 True m have d1': "drop off1 data = ds @ rest" by simp
    from ne have "0 < length ds" by simp
    from byte_at_in_drop [OF d1' this] have b: "byte_at data off1 = Inr (unat (ds ! 0))" by simp
    have res: "resolve_status (unat (ds ! 0)) off1 (last_status st) = Some (unat s, off1, unat s)"
      using resolve_running [OF small, of "unat s" off1] r prev by simp
    from d1' m have d2: "drop off1 data = body_bytes m @ rest" by simp
    from decode_body_message [OF wf d2] m
    have body: "decode_body data (unat s) off1 = Inr (message_kind m, off1 + length (body_bytes m))"
      by simp
    from decode_event_unfold [OF rv b res body] True m prev
    show ?thesis by (simp add: off1_def)
  qed
qed

declare track_loop.simps [simp del]

lemma track_loop_items:
  assumes "list_all (\<lambda>(delta, omit, m). wf_message m) items"
    and "running_status_ok (last_status st) items"
    and "drop (offset st) data = encode_track items @ rest"
  shows "\<exists>st'. track_loop data (offset st + length (encode_track items)) st = Inr (Finished st') \<and>
           offset st' = offset st + length (encode_track items) \<and>
           track_events st' = track_events st @ item_events (absolute_ticks st) items \<and>
           all_events st' = all_events st @
             filter (\<lambda>e. is_set_tempo (kind e)) (item_events (absolute_ticks st) items)"
  using assms
proof (induction items arbitrary: st)
  case Nil
  then show ?case by (subst track_loop.simps) simp
next
  case (Cons item items)
  obtain delta omit m where item: "item = (delta, omit, m)" by (cases item) auto
  from Cons.prems(1) item have wf: "wf_message m"
    and wfs: "list_all (\<lambda>(delta, omit, m). wf_message m) items" by simp_all
  from Cons.prems(2) item have ok: "omission_ok (last_status st) omit m"
    and oks: "running_status_ok (stored_status (last_status st) m) items" by simp_all
  from Cons.prems(3) item
  have d: "drop (offset st) data = vlq_encode delta @ encode_message omit m @ (encode_track items @ rest)"
    by simp
  from decode_event_item [OF wf ok d] obtain st1 where
    ev: "decode_event data st = Inr (Continue st1)"
    and o1: "offset st1 = offset st + length (vlq_encode delta) + length (encode_message omit m)"
    and t1: "absolute_ticks st1 = absolute_ticks st + delta"
    and l1: "last_status st1 = stored_status (last_status st) m"
    and e1: "track_events st1 = track_events st @ item_events (absolute_ticks st) [(delta, omit, m)]"
    and a1: "all_events st1 = all_events st @
             filter (\<lambda>e. is_set_tempo (kind e)) (item_events (absolute_ticks st) [(delta, omit, m)])"
    by blast
  have d1: "drop (offset st1) data = encode_track items @ rest"
  proof -
    have "drop (offset st + length (vlq_encode delta @ encode_message omit m)) data
            = encode_track items @ rest"
      using d by (intro drop_after) simp
    then show ?thesis by (simp add: o1 add.assoc)
  qed
  from oks l1 have oks1: "running_status_ok (last_status st1) items" by simp
  from Cons.IH [OF wfs oks1 d1] obtain st' where
    run: "track_loop data (offset st1 + length (encode_track items)) st1 = Inr (Finished st')"
    and o': "offset st' = offset st1 + length (encode_track items)"
    and e': "track_events st' = track_events st1 @ item_events (absolute_ticks st1) items"
    and a': "all_events st' = all_events st1 @
             filter (\<lambda>e. is_set_tempo (kind e)) (item_events (absolute_ticks st1) items)"
    by blast
  have te: "offset st + length (encode_track (item # items)) = offset st1 + length (encode_track items)"
    by (simp add: item o1)
  have lt: "offset st < offset st + length (encode_track (item # items))"
    using vlq_encode_nonempty [of delta] by (simp add: item)
  have "track_loop data (offset st + length (encode_track (item # items))) st =
        track_loop data (offset st + length (encode_track (item # items))) st1"
    using lt ev by (subst track_loop.simps) simp
  with run te have "track_loop data (offset st + length (encode_track (item # items))) st = Inr (Finished st')"
    by simp
  moreover have "offset st' = offset st + length (encode_track (item # items))"
    using o' te by simp
  moreover have "track_events st' = track_events st @ item_events (absolute_ticks st) (item # items)"
    using e' e1 t1 by (simp add: item)
  moreover have "all_events st' = all_events st @
             filter (\<lambda>e. is_set_tempo (kind e)) (item_events (absolute_ticks st) (item # items))"
    using a' a1 t1 by (simp add: item)
  ultimately show ?case by blast
qed

lemma item_events_explicit: "item_events ticks (explicit items) = item_events ticks items"
  by (induction items arbitrary: ticks) (auto simp: explicit_def)

lemma wf_explicit:
  "list_all (\<lambda>(delta, omit, m). wf_message m) items \<Longrightarrow>
   list_all (\<lambda>(delta, omit, m). wf_message m) (explicit items)"
  by (induction items) (auto simp: explicit_def)

lemma omission_ok_explicit: "omission_ok prev False m"
  by (cases m) simp_all

lemma running_status_ok_explicit: "running_status_ok prev (explicit items)"
  by (induction items arbitrary: prev) (auto simp: explicit_def omission_ok_explicit)

text \<open>
  Claim C6: for every track of well-formed messages, a byte stream that leaves out
  status bytes where running status allows it decodes to exactly the events (and the
  tempo events) that the stream with every status byte written decodes to. The two
  streams may stand anywhere in their buffers; each chunk length is that of its own
  stream, and both loops end normally.
\<close>

theorem C6_running_status_decodes_as_explicit:
  assumes "list_all (\<lambda>(delta, omit, m). wf_message m) items"
    and "running_status_ok 0 items"
  shows "\<exists>st1 st2.
     track_loop (pre1 @ encode_track items @ post1)
       (length pre1 + length (encode_track items))
       \<lparr>offset = length pre1, absolute_ticks = 0, last_status = 0,
        track_events = [], all_events = all\<rparr> =
       Inr (Finished st1) \<and>
     track_loop (pre2 @ encode_track (explicit items) @ post2)
       (length pre2 + length (encode_track (explicit items)))
       \<lparr>offset = length pre2, absolute_ticks = 0, last_status = 0,
        track_events = [], all_events = all\<rparr> =
       Inr (Finished st2) \<and>
     track_events st1 = track_events st2 \<and> all_events st1 = all_events st2"
proof -
  let ?s1 = "\<lparr>offset = length pre1, absolute_ticks = 0, last_status = 0,
              track_events = [], all_events = all\<rparr>"
  let ?s2 = "\<lparr>offset = length pre2, absolute_ticks = 0, last_status = 0,
              track_events = [], all_events = all\<rparr>"
  have r1: "running_status_ok (last_status ?s1) items" using assms(2) by simp
  have d1: "drop (offset ?s1) (pre1 @ encode_track items @ post1) = encode_track items @ post1"
    by simp
  have r2: "running_status_ok (last_status ?s2) (explicit items)"
    by (rule running_status_ok_explicit)
  have d2: "drop (offset ?s2) (pre2 @ encode_track (explicit items) @ post2) =
            encode_track (explicit items) @ post2"
    by simp
  from track_loop_items [OF assms(1) r1 d1] track_loop_items [OF wf_explicit [OF assms(1)] r2 d2]
  show ?thesis by (auto simp: item_events_explicit)
qed

theorem C6_running_status_decodes_as_explicit_witness:
  "list_all (\<lambda>(delta, omit, m). wf_message m)
     [(0, False, Voice 0x90 [0x3C, 0x40]), (96, True, Voice 0x90 [0x3E, 0x40]),
      (0, False, MetaMsg 0x2F [])] \<and>
   running_status_ok 0
     [(0, False, Voice 0x90 [0x3C, 0x40]), (96, True, Voice 0x90 [0x3E, 0x40]),
      (0, False, MetaMsg 0x2F [])] \<and>
   encode_track
     [(0, False, Voice 0x90 [0x3C, 0x40]), (96, True, Voice 0x90 [0x3E, 0x40]),
      (0, False, MetaMsg 0x2F [])] =
     [0x00, 0x90, 0x3C, 0x40, 0x60, 0x3E, 0x40, 0x00, 0xFF, 0x2F, 0x00] \<and>
   encode_track (explicit
     [(0, False, Voice 0x90 [0x3C, 0x40]), (96, True, Voice 0x90 [0x3E, 0x40]),
      (0, False, MetaMsg 0x2F [])]) =
     [0x00, 0x90, 0x3C, 0x40, 0x60, 0x90, 0x3E, 0x40, 0x00, 0xFF, 0x2F, 0x00] \<and>
   (\<exists>st1 st2.
      track_loop (encode_track [(0, False, Voice 0x90 [0x3C, 0x40]), (96, True, Voice 0x90 [0x3E, 0x40]),
      (0, False, MetaMsg 0x2F [])])
        (length (encode_track [(0, False, Voice 0x90 [0x3C, 0x40]), (96, True, Voice 0x90 [0x3E, 0x40]),
      (0, False, MetaMsg 0x2F [])])) \<lparr>offset = 0, absolute_ticks = 0, last_status = 0, track_events = [], all_events = []\<rparr> = Inr (Finished st1) \<and>
      track_loop (encode_track (explicit [(0, False, Voice 0x90 [0x3C, 0x40]), (96, True, Voice 0x90 [0x3E, 0x40]),
      (0, False, MetaMsg 0x2F [])]))
        (length (encode_track (explicit [(0, False, Voice 0x90 [0x3C, 0x40]), (96, True, Voice 0x90 [0x3E, 0x40]),
      (0, False, MetaMsg 0x2F [])]))) \<lparr>offset = 0, absolute_ticks = 0, last_status = 0, track_events = [], all_events = []\<rparr> = Inr (Finished st2) \<and>
      track_events st1 = track_events st2 \<and> all_events st1 = all_events st2)"
  using C6_running_status_decodes_as_explicit [of "[(0, False, Voice 0x90 [0x3C, 0x40]), (96, True, Voice 0x90 [0x3E, 0x40]),
      (0, False, MetaMsg 0x2F [])]" "[]" "[]" "[]" "[]" "[]"]
  by (simp add: explicit_def vlq_encode_def vlq_prefix.simps)

section \<open>Evaluating the decoder on a concrete file\<close>



section \<open>Running status across meta and system exclusive events\<close>

text \<open>
  One iteration of the track loop: a status byte of 0xF0 or more leaves the stored status
  as it was, a status byte from 0x80 to 0xEF is stored, and a data byte (below 0x80) is
  decoded with the stored status, which is then not zero and stays stored.
\<close>

lemma decode_event_last_status:
  "read_variable_length data (offset st) = Inr (delta_time, off) \<and>
   byte_at data off = Inr status \<and>
   decode_event data st = Inr (Continue st') \<longrightarrow>
     (0xF0 \<le> status \<longrightarrow> last_status st' = last_status st) \<and>
     (0x80 \<le> status \<and> status < 0xF0 \<longrightarrow> last_status st' = status) \<and>
     (status < 0x80 \<longrightarrow>
        last_status st' = last_status st \<and> last_status st \<noteq> 0 \<and>
        (\<exists>k. decode_body data (last_status st) off = Inr (k, offset st') \<and>
             track_events st' = track_events st @
               [\<lparr>absoluteTicks = absolute_ticks st + delta_time,
                 channel = last_status st AND 0x0F, kind = k\<rparr>])) \<and>
     (last_status st = 0 \<or> 0x80 \<le> last_status st \<and> last_status st < 0xF0 \<longrightarrow>
        last_status st' = 0 \<or> 0x80 \<le> last_status st' \<and> last_status st' < 0xF0)"
  by (auto simp: decode_event_def resolve_status_def Let_def
      split: sum.splits option.splits prod.splits if_splits)

lemma running_status_ok_append:
  "running_status_ok prev (xs @ ys) =
   (running_status_ok prev xs \<and> running_status_ok (status_after prev xs) ys)"
  by (induction xs arbitrary: prev) auto

lemma status_after_append:
  "status_after prev (xs @ ys) = status_after (status_after prev xs) ys"
  by (induction xs arbitrary: prev) auto

lemma meta_or_sysex_keeps_status:
  "list_all meta_or_sysex others \<Longrightarrow>
   status_after prev others = prev \<and> running_status_ok prev others"
proof (induction others)
  case Nil
  then show ?case by simp
next
  case (Cons item others)
  obtain delta omit m where item: "item = (delta, omit, m)" by (cases item) auto
  from Cons.prems item have "meta_or_sysex (delta, omit, m)" by simp
  then have "stored_status prev m = prev \<and> omission_ok prev omit m"
    by (cases m) (auto split: if_splits)
  with Cons item show ?case by simp
qed

lemma length_item_events: "length (item_events ticks items) = length items"
  by (induction items arbitrary: ticks) auto

lemma item_events_nth:
  "i < length items \<Longrightarrow>
   channel (item_events ticks items ! i) = status_of (snd (snd (items ! i))) AND 0x0F \<and>
   kind (item_events ticks items ! i) = message_kind (snd (snd (items ! i)))"
proof (induction items arbitrary: ticks i)
  case Nil
  then show ?case by simp
next
  case (Cons item items)
  obtain delta omit m where item: "item = (delta, omit, m)" by (cases item) auto
  show ?case
  proof (cases i)
    case 0
    then show ?thesis by (simp add: item)
  next
    case (Suc j)
    with Cons.prems have "j < length items" by simp
    from Cons.IH [OF this, of "ticks + delta"] Suc show ?thesis by (simp add: item)
  qed
qed

lemma running_status_ok_appendI:
  "running_status_ok prev xs \<Longrightarrow> status_after prev xs = p \<Longrightarrow> running_status_ok p ys \<Longrightarrow>
   running_status_ok prev (xs @ ys)"
  by (simp add: running_status_ok_append)

lemma encode_track_append: "encode_track (xs @ ys) = encode_track xs @ encode_track ys"
  by (induction xs) auto

text \<open>
  Claim C10: take any track of well-formed messages in which a channel message with
  status \<open>s\<close> is followed by any number of meta and system exclusive events and then by a
  channel message written without its status byte, so that the stream holds only its data
  bytes \<open>ds2\<close> after the delta time. Wherever the stream stands in the buffer, the track loop
  reads it to its end and yields one event for each message, and the event of the message
  without status byte has the channel of \<open>s\<close> and the kind that the data bytes have under
  the status \<open>s\<close>: the meta and system exclusive events in between have not changed
  the stored status.
\<close>

theorem C10_running_status_survives_meta_and_sysex:
  assumes wf: "list_all (\<lambda>(delta, omit, m). wf_message m) items"
    and shape: "items = front @ [(d1, o1, Voice s ds1)] @ others @ [(d2, True, Voice s ds2)] @ rear"
    and others: "list_all meta_or_sysex others"
    and front_ok: "running_status_ok 0 (front @ [(d1, o1, Voice s ds1)])"
    and rear_ok: "running_status_ok (unat s) rear"
  shows "encode_track items =
           encode_track (front @ [(d1, o1, Voice s ds1)] @ others) @
           vlq_encode d2 @ ds2 @ encode_track rear \<and>
   (\<exists>st.
     track_loop (pre @ encode_track items @ post) (length pre + length (encode_track items))
       \<lparr>offset = length pre, absolute_ticks = 0, last_status = 0,
        track_events = [], all_events = all\<rparr> = Inr (Finished st) \<and>
     length (track_events st) = length items \<and>
     channel (track_events st ! (length front + 1 + length others)) = unat s AND 0x0F \<and>
     kind (track_events st ! (length front + 1 + length others)) = message_kind (Voice s ds2)) \<and>
   decode_body ds2 (unat s) 0 = Inr (message_kind (Voice s ds2), length ds2)"
proof -
  let ?i = "length front + 1 + length others"
  let ?start = "\<lparr>offset = length pre, absolute_ticks = 0, last_status = 0,
                 track_events = [], all_events = all\<rparr>"
  have s1: "status_after 0 (front @ [(d1, o1, Voice s ds1)]) = unat s"
    by (simp add: status_after_append)
  have ok: "running_status_ok 0 items"
  proof -
    have split: "items = (front @ [(d1, o1, Voice s ds1)]) @ (others @ ((d2, True, Voice s ds2) # rear))"
      by (simp add: shape)
    from meta_or_sysex_keeps_status [OF others, of "unat s"]
    have k: "status_after (unat s) others = unat s" and o: "running_status_ok (unat s) others"
      by simp_all
    have v: "running_status_ok (unat s) ((d2, True, Voice s ds2) # rear)"
      using rear_ok by simp
    have tl: "running_status_ok (unat s) (others @ ((d2, True, Voice s ds2) # rear))"
      by (rule running_status_ok_appendI [OF o k v])
    show ?thesis
      unfolding split by (rule running_status_ok_appendI [OF front_ok s1 tl])
  qed
  have r: "running_status_ok (last_status ?start) items" using ok by simp
  have d: "drop (offset ?start) (pre @ encode_track items @ post) = encode_track items @ post"
    by simp
  from track_loop_items [OF wf r d] obtain st where
    run: "track_loop (pre @ encode_track items @ post) (length pre + length (encode_track items))
            ?start = Inr (Finished st)"
    and ev: "track_events st = item_events 0 items"
    by auto
  have i: "?i < length items" by (simp add: shape)
  have at: "items ! ?i = (d2, True, Voice s ds2)"
  proof -
    have "items = (front @ [(d1, o1, Voice s ds1)] @ others) @ (d2, True, Voice s ds2) # rear"
      by (simp add: shape)
    moreover have "length (front @ [(d1, o1, Voice s ds1)] @ others) = ?i" by simp
    ultimately show ?thesis by (metis nth_append_length)
  qed
  have mem: "(d2, True, Voice s ds2) \<in> set items" by (simp add: shape)
  have wf2: "wf_message (Voice s ds2)"
    using wf mem unfolding list_all_iff by (auto simp del: wf_message.simps)
  have "drop 0 ds2 = body_bytes (Voice s ds2) @ []" by simp
  from decode_body_message [OF wf2 this]
  have body: "decode_body ds2 (unat s) 0 = Inr (message_kind (Voice s ds2), length ds2)" by simp
  have enc: "encode_track items =
           encode_track (front @ [(d1, o1, Voice s ds1)] @ others) @
           vlq_encode d2 @ ds2 @ encode_track rear"
    unfolding shape by (simp add: encode_track_append)
  from item_events_nth [OF i, of 0] at ev length_item_events [of 0 items] run body enc
  show ?thesis by auto
qed

theorem C10_running_status_survives_meta_and_sysex_witness:
  "list_all (\<lambda>(delta, omit, m). wf_message m)
     [(0::nat, False, Voice 0x90 [0x3C, 0x40]), (0, False, MetaMsg 0x01 []),
      (0, False, SysexMsg 0xF0 [0x01]), (96, True, Voice 0x90 [0x3E, 0x40])] \<and>
   list_all meta_or_sysex [(0::nat, False, MetaMsg 0x01 []), (0, False, SysexMsg 0xF0 [0x01])] \<and>
   running_status_ok 0 [(0, False, Voice 0x90 [0x3C, 0x40])] \<and>
   encode_track
     [(0, False, Voice 0x90 [0x3C, 0x40]), (0, False, MetaMsg 0x01 []),
      (0, False, SysexMsg 0xF0 [0x01]), (96, True, Voice 0x90 [0x3E, 0x40])] =
     [0x00, 0x90, 0x3C, 0x40, 0x00, 0xFF, 0x01, 0x00, 0x00, 0xF0, 0x01, 0x01, 0x60, 0x3E, 0x40] \<and>
   (\<exists>st.
     track_loop (encode_track
         [(0, False, Voice 0x90 [0x3C, 0x40]), (0, False, MetaMsg 0x01 []),
          (0, False, SysexMsg 0xF0 [0x01]), (96, True, Voice 0x90 [0x3E, 0x40])])
       (length (encode_track
         [(0, False, Voice 0x90 [0x3C, 0x40]), (0, False, MetaMsg 0x01 []),
          (0, False, SysexMsg 0xF0 [0x01]), (96, True, Voice 0x90 [0x3E, 0x40])]))
       \<lparr>offset = 0, absolute_ticks = 0, last_status = 0,
        track_events = [], all_events = []\<rparr> = Inr (Finished st) \<and>
     length (track_events st) = 4 \<and>
     channel (track_events st ! 3) = 0 \<and>
     kind (track_events st ! 3) = NoteOn 62 64)"
proof -
  let ?v1 = "(0::nat, False, Voice 0x90 [0x3C, 0x40])"
  let ?others = "[(0::nat, False, MetaMsg 0x01 []), (0, False, SysexMsg 0xF0 [0x01])]"
  let ?v2 = "(96::nat, True, Voice 0x90 [0x3E, 0x40])"
  let ?items = "[?v1, (0, False, MetaMsg 0x01 []), (0, False, SysexMsg 0xF0 [0x01]), ?v2]"
  have wf: "list_all (\<lambda>(delta, omit, m). wf_message m) ?items" by simp
  have shape: "?items = [] @ [?v1] @ ?others @ [?v2] @ []" by simp
  have others: "list_all meta_or_sysex ?others" by simp
  have front_ok: "running_status_ok 0 ([] @ [?v1])" by simp
  have rear_ok: "running_status_ok (unat (0x90 :: byte)) []" by simp
  have k: "message_kind (Voice 0x90 [0x3E, 0x40]) = NoteOn 62 64"
    by (simp add: message_kind_def decode_body_def decode_voice_def read2_def byte_at_def)
  have c: "unat (0x90 :: byte) AND 0x0F = 0" by simp
  have i: "length ([] :: (nat \<times> bool \<times> message) list) + 1 + length ?others = 3" by simp
  have l: "length ?items = 4" by simp
  have e: "encode_track ?items =
     [0x00, 0x90, 0x3C, 0x40, 0x00, 0xFF, 0x01, 0x00, 0x00, 0xF0, 0x01, 0x01, 0x60, 0x3E, 0x40]"
    by (simp add: vlq_encode_def vlq_prefix.simps)
  from C10_running_status_survives_meta_and_sysex [OF wf shape others front_ok rear_ok, of "[]" "[]" "[]"]
  obtain st where
    "track_loop ([] @ encode_track ?items @ []) (length ([] :: byte list) + length (encode_track ?items))
       \<lparr>offset = length ([] :: byte list), absolute_ticks = 0, last_status = 0,
        track_events = [], all_events = []\<rparr> = Inr (Finished st)"
    "length (track_events st) = length ?items"
    "channel (track_events st ! (length ([] :: (nat \<times> bool \<times> message) list) + 1 + length ?others)) = unat (0x90 :: byte) AND 0x0F"
    "kind (track_events st ! (length ([] :: (nat \<times> bool \<times> message) list) + 1 + length ?others)) = message_kind (Voice 0x90 [0x3E, 0x40])"
    by blast
  then have
    "track_loop (encode_track ?items) (length (encode_track ?items))
       \<lparr>offset = 0, absolute_ticks = 0, last_status = 0,
        track_events = [], all_events = []\<rparr> = Inr (Finished st) \<and>
     length (track_events st) = 4 \<and>
     channel (track_events st ! 3) = 0 \<and>
     kind (track_events st ! 3) = NoteOn 62 64"
    unfolding i l k c by (simp only: append_Nil append_Nil2 list.size add_0 simp_thms)
  then have "\<exists>st. track_loop (encode_track ?items) (length (encode_track ?items))
       \<lparr>offset = 0, absolute_ticks = 0, last_status = 0,
        track_events = [], all_events = []\<rparr> = Inr (Finished st) \<and>
     length (track_events st) = 4 \<and>
     channel (track_events st ! 3) = 0 \<and>
     kind (track_events st ! 3) = NoteOn 62 64" by (rule exI)
  moreover have "running_status_ok 0 [?v1]" by simp
  ultimately show ?thesis using wf others e by blast
qed

section \<open>A chunk longer than the buffer\<close>











section \<open>What the caller gets after a decode error\<close>


























end
